theory Spec2Isabelle
  imports Main
begin

section \<open>Cyclic FIFO buffers of \<^verbatim>\<open>task_2.py\<close>\<close>

text \<open>
  The module defines two classes with the same interface: \<^verbatim>\<open>CyclicBufferOne\<close>, a
  wrapper around \<^verbatim>\<open>collections.deque(maxlen=...)\<close>, and \<^verbatim>\<open>CyclicBufferTwo\<close>, a
  list of fixed length with a write position and a counter. Both classes name their
  members alike (\<^verbatim>\<open>buffer\<close>, \<^verbatim>\<open>append\<close>, \<^verbatim>\<open>get_buffer\<close>, \<^verbatim>\<open>peek_top\<close>,
  \<^verbatim>\<open>peek_bottom\<close>), so every member carries the suffix \<open>_one\<close> or \<open>_two\<close> of its
  class here. Python integers are \<^typ>\<open>int\<close>; an exception is a value of the
  error type below, on the left of a sum.
\<close>

subsection \<open>Python primitives used by the classes\<close>

datatype py_error = IndexError | ZeroDivisionError | ValueError

text \<open>\<^verbatim>\<open>xs[i]\<close>: a negative index counts from the end, an index out of range raises.\<close>

definition py_getitem :: "'a list \<Rightarrow> int \<Rightarrow> py_error + 'a" where
  "py_getitem xs i =
     (let j = (if i < 0 then i + int (length xs) else i)
      in if j < 0 \<or> int (length xs) \<le> j then Inl IndexError else Inr (xs ! nat j))"

text \<open>\<^verbatim>\<open>xs[i] = v\<close>: the same index rule; the list is returned updated.\<close>

definition py_setitem :: "'a list \<Rightarrow> int \<Rightarrow> 'a \<Rightarrow> py_error + 'a list" where
  "py_setitem xs i v =
     (let j = (if i < 0 then i + int (length xs) else i)
      in if j < 0 \<or> int (length xs) \<le> j then Inl IndexError else Inr (xs[nat j := v]))"

text \<open>\<^verbatim>\<open>a % b\<close>: floored remainder (the sign of the divisor), raising on a zero divisor.\<close>

definition py_mod :: "int \<Rightarrow> int \<Rightarrow> py_error + int" where
  "py_mod a b = (if b = 0 then Inl ZeroDivisionError else Inr (a mod b))"

text \<open>
  Slice bounds never raise: a negative bound counts from the end, and every bound is
  clamped to the length of the list.
\<close>

definition py_slice_bound :: "nat \<Rightarrow> int \<Rightarrow> nat" where
  "py_slice_bound n i = (if i < 0 then nat (max 0 (int n + i)) else min n (nat i))"

text \<open>\<^verbatim>\<open>xs[:j]\<close> and \<^verbatim>\<open>xs[i:]\<close>.\<close>

definition py_slice_to :: "'a list \<Rightarrow> int \<Rightarrow> 'a list" where
  "py_slice_to xs j = take (py_slice_bound (length xs) j) xs"

definition py_slice_from :: "'a list \<Rightarrow> int \<Rightarrow> 'a list" where
  "py_slice_from xs i = drop (py_slice_bound (length xs) i) xs"

text \<open>
  \<^verbatim>\<open>[v] * n\<close>: the empty list when \<open>n\<close> is zero or negative. The interpreter
  converts \<open>n\<close> to a signed 64-bit index first and then allocates the list:
  \<^verbatim>\<open>OverflowError\<close> outside \<open>- 2^63 \<le> n < 2^63\<close> and \<^verbatim>\<open>MemoryError\<close> from \<open>2^60\<close>
  slots on are limits of the interpreter, not statements of the module, and have no
  case here or in the deque below; what is stated of construction itself is stated
  for capacities within them.
\<close>

definition py_repeat :: "'a \<Rightarrow> int \<Rightarrow> 'a list" where
  "py_repeat v n = replicate (nat n) v"

subsection \<open>\<^verbatim>\<open>collections.deque\<close> with an integer \<^verbatim>\<open>maxlen\<close>\<close>

text \<open>
  The standard library's bounded deque, as far as \<^verbatim>\<open>CyclicBufferOne\<close> uses it:
  the constructor rejects a negative \<^verbatim>\<open>maxlen\<close> with \<^verbatim>\<open>ValueError\<close>;
  \<^verbatim>\<open>append\<close> adds on the right and, when the length then exceeds \<^verbatim>\<open>maxlen\<close>,
  drops the leftmost item; indexing follows the rule of lists.
\<close>

record 'a deque =
  items :: "'a list"
  maxlen :: int

definition deque_new :: "int \<Rightarrow> py_error + 'a deque" where
  "deque_new n = (if n < 0 then Inl ValueError else Inr \<lparr>items = [], maxlen = n\<rparr>)"

definition deque_append :: "'a deque \<Rightarrow> 'a \<Rightarrow> 'a deque" where
  "deque_append d x =
     (let ys = items d @ [x]
      in d\<lparr>items := (if maxlen d < int (length ys) then tl ys else ys)\<rparr>)"

definition deque_getitem :: "'a deque \<Rightarrow> int \<Rightarrow> py_error + 'a" where
  "deque_getitem d i = py_getitem (items d) i"

subsection \<open>\<^verbatim>\<open>CyclicBufferOne\<close>\<close>

record 'a CyclicBufferOne =
  buffer_one :: "'a deque"

definition init_one :: "int \<Rightarrow> py_error + 'a CyclicBufferOne" where
  "init_one buffer_size =
     (case deque_new buffer_size of
        Inl e \<Rightarrow> Inl e
      | Inr d \<Rightarrow> Inr \<lparr>buffer_one = d\<rparr>)"

definition append_one :: "'a CyclicBufferOne \<Rightarrow> 'a \<Rightarrow> py_error + 'a CyclicBufferOne" where
  "append_one self item = Inr (self\<lparr>buffer_one := deque_append (buffer_one self) item\<rparr>)"

definition get_buffer_one :: "'a CyclicBufferOne \<Rightarrow> 'a list" where
  "get_buffer_one self = items (buffer_one self)"

definition peek_top_one :: "'a CyclicBufferOne \<Rightarrow> py_error + 'a" where
  "peek_top_one self =
     (if items (buffer_one self) = [] then Inl IndexError
      else deque_getitem (buffer_one self) (- 1))"

definition peek_bottom_one :: "'a CyclicBufferOne \<Rightarrow> py_error + 'a" where
  "peek_bottom_one self =
     (if items (buffer_one self) = [] then Inl IndexError
      else deque_getitem (buffer_one self) 0)"

subsection \<open>\<^verbatim>\<open>CyclicBufferTwo\<close>\<close>

text \<open>
  The slots are filled with the integer \<open>0\<close> at construction, so the element type has
  a zero. The field \<^verbatim>\<open>size\<close> is \<open>size_two\<close>.
\<close>

record 'a CyclicBufferTwo =
  buffer_two :: "'a list"
  size_two :: int
  position_two :: int
  count_two :: int

definition init_two :: "int \<Rightarrow> py_error + ('a::zero) CyclicBufferTwo" where
  "init_two buffer_size =
     Inr \<lparr>buffer_two = py_repeat 0 buffer_size, size_two = buffer_size,
          position_two = 0, count_two = 0\<rparr>"

text \<open>
  The three statements of \<^verbatim>\<open>append\<close> in order: the slot assignment may raise
  \<^verbatim>\<open>IndexError\<close>, then the remainder may raise \<^verbatim>\<open>ZeroDivisionError\<close>, then the
  counter grows while it is below \<^verbatim>\<open>size\<close>. An exception ends the call: the result
  is then the error alone.
\<close>

definition append_two :: "'a CyclicBufferTwo \<Rightarrow> 'a \<Rightarrow> py_error + 'a CyclicBufferTwo" where
  "append_two self item =
     (case py_setitem (buffer_two self) (position_two self) item of
        Inl e \<Rightarrow> Inl e
      | Inr b \<Rightarrow>
          (case py_mod (position_two self + 1) (size_two self) of
             Inl e \<Rightarrow> Inl e
           | Inr p \<Rightarrow>
               Inr (self\<lparr>buffer_two := b, position_two := p,
                         count_two := (if count_two self < size_two self
                                       then count_two self + 1 else count_two self)\<rparr>)))"

definition get_buffer_two :: "'a CyclicBufferTwo \<Rightarrow> 'a list" where
  "get_buffer_two self =
     (if count_two self < size_two self
      then py_slice_to (buffer_two self) (count_two self)
      else py_slice_from (buffer_two self) (position_two self)
           @ py_slice_to (buffer_two self) (position_two self))"

definition peek_top_two :: "'a CyclicBufferTwo \<Rightarrow> py_error + 'a" where
  "peek_top_two self =
     (if count_two self = 0 then Inl IndexError
      else (case py_mod (position_two self - 1) (size_two self) of
              Inl e \<Rightarrow> Inl e
            | Inr i \<Rightarrow> py_getitem (buffer_two self) i))"

definition peek_bottom_two :: "'a CyclicBufferTwo \<Rightarrow> py_error + 'a" where
  "peek_bottom_two self =
     (if count_two self = 0 then Inl IndexError
      else if count_two self < size_two self then py_getitem (buffer_two self) 0
      else py_getitem (buffer_two self) (position_two self))"

subsection \<open>Sequences of appends\<close>

text \<open>
  A client that constructs a buffer and appends the items of a list from left to right,
  as \<^verbatim>\<open>test_buffer\<close> does with \<^verbatim>\<open>range(900_000)\<close>; the first exception ends the run.
\<close>

fun appends_one :: "'a CyclicBufferOne \<Rightarrow> 'a list \<Rightarrow> py_error + 'a CyclicBufferOne" where
  "appends_one self [] = Inr self"
| "appends_one self (x # xs) =
     (case append_one self x of Inl e \<Rightarrow> Inl e | Inr s \<Rightarrow> appends_one s xs)"

fun appends_two :: "'a CyclicBufferTwo \<Rightarrow> 'a list \<Rightarrow> py_error + 'a CyclicBufferTwo" where
  "appends_two self [] = Inr self"
| "appends_two self (x # xs) =
     (case append_two self x of Inl e \<Rightarrow> Inl e | Inr s \<Rightarrow> appends_two s xs)"

definition run_one :: "int \<Rightarrow> 'a list \<Rightarrow> py_error + 'a CyclicBufferOne" where
  "run_one buffer_size xs =
     (case init_one buffer_size of Inl e \<Rightarrow> Inl e | Inr s \<Rightarrow> appends_one s xs)"

definition run_two :: "int \<Rightarrow> ('a::zero) list \<Rightarrow> py_error + 'a CyclicBufferTwo" where
  "run_two buffer_size xs =
     (case init_two buffer_size of Inl e \<Rightarrow> Inl e | Inr s \<Rightarrow> appends_two s xs)"

section \<open>Properties\<close>

subsection \<open>Appending at the end of a run\<close>

lemma appends_two_snoc:
  "appends_two s (xs @ [x]) =
     (case appends_two s xs of Inl e \<Rightarrow> Inl e | Inr t \<Rightarrow> append_two t x)"
  by (induction xs arbitrary: s) (simp_all split: sum.splits)

lemma appends_one_snoc:
  "appends_one s (xs @ [x]) =
     (case appends_one s xs of Inl e \<Rightarrow> Inl e | Inr t \<Rightarrow> append_one t x)"
  by (induction xs arbitrary: s) (simp_all split: sum.splits)

lemma ring_fill:
  assumes "n < length b"
  shows "take (Suc n) (b[n := x]) = take n b @ [x]"
  using assms by (simp add: take_Suc_conv_app_nth)

lemma ring_rotate:
  assumes "p < length b"
  shows "drop (Suc p mod length b) (b[p := x]) @ take (Suc p mod length b) (b[p := x])
         = tl (drop p b @ take p b) @ [x]"
proof (cases "Suc p < length b")
  case True
  have "drop p b = b ! p # drop (Suc p) b"
    using assms by (simp add: Cons_nth_drop_Suc)
  then show ?thesis
    using True assms by (simp add: take_Suc_conv_app_nth)
next
  case False
  then have len: "length b = Suc p" using assms by simp
  have "drop p b = [b ! p]"
    using len by (metis Cons_nth_drop_Suc assms drop_all order_refl)
  moreover have "b[p := x] = take p b @ [x]"
    using ring_fill [OF assms, of x] len by simp
  ultimately show ?thesis using len by simp
qed

lemma append_two_nat:
  assumes "size_two s = int C" and "0 < C" and "length (buffer_two s) = C"
    and "position_two s = int p" and "p < C"
  shows "append_two s x =
     Inr (s\<lparr>buffer_two := (buffer_two s)[p := x],
            position_two := int (Suc p mod C),
            count_two := (if count_two s < int C then count_two s + 1 else count_two s)\<rparr>)"
  using assms
  by (simp add: append_two_def py_setitem_def py_mod_def of_nat_mod add.commute)

lemma get_buffer_two_nat:
  assumes "size_two s = int C" and "count_two s = int k" and "position_two s = int p"
    and "length (buffer_two s) = C"
  shows "get_buffer_two s =
     (if k < C then take k (buffer_two s)
      else drop p (buffer_two s) @ take p (buffer_two s))"
  using assms
  by (simp add: get_buffer_two_def py_slice_to_def py_slice_from_def py_slice_bound_def min_def)


lemma run_two_snoc:
  "run_two c (xs @ [x]) =
     (case run_two c xs of Inl e \<Rightarrow> Inl e | Inr t \<Rightarrow> append_two t x)"
  by (simp add: run_two_def init_two_def appends_two_snoc)

lemma run_two_state:
  assumes "0 < C"
  shows "\<exists>s. run_two (int C) xs = Inr s \<and> size_two s = int C
           \<and> length (buffer_two s) = C
           \<and> position_two s = int (length xs mod C)
           \<and> count_two s = int (min (length xs) C)
           \<and> get_buffer_two s = drop (length xs - C) xs"
proof (induction xs rule: rev_induct)
  case Nil
  show ?case
    using assms
    by (simp add: run_two_def init_two_def py_repeat_def get_buffer_two_def
        py_slice_to_def py_slice_bound_def)
next
  case (snoc x xs)
  let ?n = "length xs"
  let ?p = "?n mod C"
  from snoc obtain s where run: "run_two (int C) xs = Inr s"
    and sz: "size_two s = int C" and len: "length (buffer_two s) = C"
    and pos: "position_two s = int ?p"
    and cnt: "count_two s = int (min ?n C)"
    and gb: "get_buffer_two s = drop (?n - C) xs"
    by blast
  let ?b = "buffer_two s"
  define t where "t = s\<lparr>buffer_two := ?b[?p := x],
            position_two := int (Suc ?p mod C),
            count_two := (if count_two s < int C then count_two s + 1 else count_two s)\<rparr>"
  have pC: "?p < C" using assms by simp
  have app: "append_two s x = Inr t"
    unfolding t_def using sz assms len pos pC by (rule append_two_nat)
  have run': "run_two (int C) (xs @ [x]) = Inr t"
    by (simp add: run_two_snoc run app)
  have sz': "size_two t = int C" and len': "length (buffer_two t) = C"
    by (simp_all add: t_def sz len)
  have pos': "position_two t = int (length (xs @ [x]) mod C)"
    by (simp add: t_def mod_Suc_eq)
  have cnt': "count_two t = int (min (length (xs @ [x])) C)"
    by (simp add: t_def cnt min_def)
  have old: "get_buffer_two s =
      (if min ?n C < C then take (min ?n C) ?b else drop ?p ?b @ take ?p ?b)"
    using sz cnt pos len by (rule get_buffer_two_nat)
  have new: "get_buffer_two t =
      (if min (Suc ?n) C < C then take (min (Suc ?n) C) (buffer_two t)
       else drop (Suc ?n mod C) (buffer_two t) @ take (Suc ?n mod C) (buffer_two t))"
    using get_buffer_two_nat [OF sz' _ _ len', of "min (Suc ?n) C" "Suc ?n mod C"] pos' cnt'
    by simp
  have bt: "buffer_two t = ?b[?p := x]" by (simp add: t_def)
  have gb': "get_buffer_two t = drop (length (xs @ [x]) - C) (xs @ [x])"
  proof (cases "?n < C")
    case True
    then have p: "?p = ?n" by simp
    have xs: "take ?n ?b = xs" using old gb True by simp
    have fill: "take (Suc ?n) (?b[?n := x]) = xs @ [x]"
      using ring_fill [of ?n ?b x] True len xs by simp
    show ?thesis
    proof (cases "Suc ?n < C")
      case True
      then show ?thesis using new bt p fill by simp
    next
      case False
      then have "C = Suc ?n" using \<open>?n < C\<close> by simp
      then show ?thesis using new bt p fill len by simp
    qed
  next
    case False
    then have full: "drop ?p ?b @ take ?p ?b = drop (?n - C) xs"
      using old gb by simp
    have "drop (Suc ?p mod C) (?b[?p := x]) @ take (Suc ?p mod C) (?b[?p := x])
          = tl (drop ?p ?b @ take ?p ?b) @ [x]"
      using ring_rotate [of ?p ?b x] pC len by simp
    moreover have "drop (Suc ?n - C) (xs @ [x]) = tl (drop (?n - C) xs) @ [x]"
      using False assms by (simp add: Suc_diff_le drop_Suc tl_drop)
    ultimately show ?thesis
      using new bt False full by (simp add: mod_Suc_eq)
  qed
  show ?case using run' sz' len' pos' cnt' gb' by blast
qed

subsection \<open>The deque keeps the last \<open>maxlen\<close> items\<close>

lemma run_one_snoc:
  "run_one c (xs @ [x]) =
     (case run_one c xs of Inl e \<Rightarrow> Inl e | Inr t \<Rightarrow> append_one t x)"
  by (simp add: run_one_def appends_one_snoc split: sum.splits)

lemma run_one_state:
  assumes "0 \<le> c"
  shows "\<exists>s. run_one c xs = Inr s \<and> maxlen (buffer_one s) = c
           \<and> get_buffer_one s = drop (length xs - nat c) xs"
proof (induction xs rule: rev_induct)
  case Nil
  show ?case
    using assms by (simp add: run_one_def init_one_def deque_new_def get_buffer_one_def)
next
  case (snoc x xs)
  then obtain s where run: "run_one c xs = Inr s" and ml: "maxlen (buffer_one s) = c"
    and gb: "items (buffer_one s) = drop (length xs - nat c) xs"
    by (auto simp: get_buffer_one_def)
  let ?t = "s\<lparr>buffer_one := deque_append (buffer_one s) x\<rparr>"
  have run': "run_one c (xs @ [x]) = Inr ?t"
    by (simp add: run_one_snoc run append_one_def)
  have ml': "maxlen (buffer_one ?t) = c"
    by (simp add: deque_append_def Let_def ml)
  have gb': "get_buffer_one ?t = drop (length (xs @ [x]) - nat c) (xs @ [x])"
  proof (cases "length xs < nat c")
    case True
    then have "\<not> c < 1 + int (length xs)" by linarith
    then show ?thesis
      using True by (simp add: get_buffer_one_def deque_append_def Let_def ml gb)
  next
    case False
    have "drop (Suc (length xs) - nat c) (xs @ [x]) = tl (drop (length xs - nat c) xs @ [x])"
    proof (cases "nat c = 0")
      case True
      then show ?thesis by simp
    next
      case False
      with \<open>\<not> length xs < nat c\<close>
      have "drop (length xs - nat c) xs \<noteq> []" and "Suc (length xs) - nat c = Suc (length xs - nat c)"
        by simp_all
      then show ?thesis by (simp add: drop_Suc tl_drop)
    qed
    moreover have "c < int (length (drop (length xs - nat c) xs @ [x]))"
      using False assms by simp
    ultimately show ?thesis
      by (simp add: get_buffer_one_def deque_append_def Let_def ml gb)
  qed
  show ?case using run' ml' gb' by blast
qed

lemma peek_one_getitem:
  "peek_top_one s = py_getitem (get_buffer_one s) (- 1)"
  "peek_bottom_one s = py_getitem (get_buffer_one s) 0"
  by (simp_all add: peek_top_one_def peek_bottom_one_def deque_getitem_def
      get_buffer_one_def py_getitem_def)

lemma py_getitem_last: "xs \<noteq> [] \<Longrightarrow> py_getitem xs (- 1) = Inr (last xs)"
  by (simp add: py_getitem_def last_conv_nth nat_diff_distrib' flip: of_nat_diff)

lemma py_getitem_hd: "xs \<noteq> [] \<Longrightarrow> py_getitem xs 0 = Inr (hd xs)"
  by (simp add: py_getitem_def hd_conv_nth)

lemma py_getitem_Nil: "py_getitem [] i = Inl IndexError"
  by (simp add: py_getitem_def)

subsection \<open>Peeking in the fixed-length list\<close>

lemma pred_mod_int:
  assumes "0 < C" and "p < C"
  shows "(int p - 1) mod int C = int (if p = 0 then C - 1 else p - 1)"
proof (cases "p = 0")
  case True
  have "(- 1) mod int C = int C - 1"
    using assms(1) by (simp add: zmod_minus1)
  then show ?thesis using True assms(1) by (simp add: of_nat_diff)
next
  case False
  then have "int p - 1 = int (p - 1)" by (simp add: of_nat_diff)
  moreover have "int (p - 1) mod int C = int (p - 1)"
    using assms(2) by simp
  ultimately show ?thesis using False by simp
qed

lemma peek_top_two_nat:
  assumes "size_two s = int C" and "0 < C" and "length (buffer_two s) = C"
    and "position_two s = int p" and "p < C" and "count_two s \<noteq> 0"
  shows "peek_top_two s = Inr (buffer_two s ! (if p = 0 then C - 1 else p - 1))"
proof -
  let ?i = "if p = 0 then C - 1 else p - 1"
  have "?i < C" using assms(2,5) by (cases p) auto
  then show ?thesis
    using assms pred_mod_int [of C p]
    by (simp add: peek_top_two_def py_mod_def py_getitem_def)
qed

lemma run_two_peek:
  assumes "0 < C" and "run_two (int C) xs = Inr s"
  shows "peek_top_two s = py_getitem (get_buffer_two s) (- 1)"
    and "peek_bottom_two s = py_getitem (get_buffer_two s) 0"
proof -
  let ?n = "length xs" and ?b = "buffer_two s"
  let ?p = "?n mod C"
  from run_two_state [OF assms(1), of xs] assms(2)
  have sz: "size_two s = int C" and len: "length ?b = C"
    and pos: "position_two s = int ?p"
    and cnt: "count_two s = int (min ?n C)"
    by auto
  have pC: "?p < C" using assms(1) by simp
  have gb: "get_buffer_two s =
      (if min ?n C < C then take (min ?n C) ?b else drop ?p ?b @ take ?p ?b)"
    using sz cnt pos len by (rule get_buffer_two_nat)
  show "peek_top_two s = py_getitem (get_buffer_two s) (- 1)"
  proof (cases "?n = 0")
    case True
    then show ?thesis
      using assms(1) gb cnt by (simp add: peek_top_two_def py_getitem_Nil)
  next
    case False
    then have c0: "count_two s \<noteq> 0" using cnt assms(1) by simp
    have top: "peek_top_two s = Inr (?b ! (if ?p = 0 then C - 1 else ?p - 1))"
      using sz assms(1) len pos pC c0 by (rule peek_top_two_nat)
    show ?thesis
    proof (cases "?n < C")
      case True
      then have "get_buffer_two s = take ?n ?b" using gb by simp
      moreover have ne: "take ?n ?b \<noteq> []" using False True len by auto
      moreover have "last (take ?n ?b) = ?b ! (?n - 1)"
        using False True len last_conv_nth [OF ne] by (simp add: min_def)
      ultimately show ?thesis
        using top True False by (simp add: py_getitem_last)
    next
      case full: False
      then have g: "get_buffer_two s = drop ?p ?b @ take ?p ?b" using gb by simp
      have ne: "drop ?p ?b @ take ?p ?b \<noteq> []" using len assms(1) by auto
      have "last (drop ?p ?b @ take ?p ?b) = ?b ! (if ?p = 0 then C - 1 else ?p - 1)"
      proof (cases "?p = 0")
        case True
        then show ?thesis using len assms(1) by (auto simp: last_conv_nth)
      next
        case False
        then have ne2: "take ?p ?b \<noteq> []" using len assms(1) by auto
        have "last (take ?p ?b) = ?b ! (?p - 1)"
          using False pC len last_conv_nth [OF ne2] by (simp add: min_def)
        then show ?thesis using False ne2 by simp
      qed
      then show ?thesis using top g py_getitem_last [OF ne] by simp
    qed
  qed
  show "peek_bottom_two s = py_getitem (get_buffer_two s) 0"
  proof (cases "?n = 0")
    case True
    then show ?thesis
      using assms(1) gb cnt by (simp add: peek_bottom_two_def py_getitem_Nil)
  next
    case False
    then have c0: "count_two s \<noteq> 0" using cnt assms(1) by simp
    show ?thesis
    proof (cases "?n < C")
      case True
      then have "get_buffer_two s = take ?n ?b" using gb by simp
      moreover have ne: "take ?n ?b \<noteq> []" using False True len by auto
      moreover have "hd (take ?n ?b) = ?b ! 0"
        using False hd_conv_nth [OF ne] by simp
      moreover have "py_getitem ?b 0 = Inr (?b ! 0)"
        using len assms(1) by (simp add: py_getitem_def)
      ultimately show ?thesis
        using c0 True sz cnt by (simp add: peek_bottom_two_def py_getitem_hd)
    next
      case full: False
      then have g: "get_buffer_two s = drop ?p ?b @ take ?p ?b" using gb by simp
      have ne: "drop ?p ?b @ take ?p ?b \<noteq> []" using len assms(1) by auto
      have "hd (drop ?p ?b @ take ?p ?b) = ?b ! ?p"
        using pC len by (simp add: hd_append hd_drop_conv_nth)
      moreover have "py_getitem ?b (int ?p) = Inr (?b ! ?p)"
        using len pC by (simp add: py_getitem_def)
      ultimately show ?thesis
        using c0 full sz cnt pos g py_getitem_hd [OF ne]
        by (simp add: peek_bottom_two_def)
    qed
  qed
qed

lemma run_two_nonpos:
  assumes "c \<le> 0" and "run_two c xs = Inr s"
  shows "xs = []" and "s = \<lparr>buffer_two = [], size_two = c, position_two = 0, count_two = 0\<rparr>"
  using assms
  by (cases xs; simp add: run_two_def init_two_def py_repeat_def append_two_def py_setitem_def)+

lemma positive_capacity: "1 \<le> c \<Longrightarrow> \<exists>C. c = int C \<and> 0 < C"
  by (rule exI [of _ "nat c"]) simp

lemma run_two_reach:
  assumes "1 \<le> c"
  shows "\<exists>s. run_two c xs = Inr s \<and> size_two s = c
           \<and> int (length (buffer_two s)) = c
           \<and> position_two s = int (length xs) mod c
           \<and> count_two s = min (int (length xs)) c
           \<and> get_buffer_two s = drop (length xs - nat c) xs"
proof -
  from positive_capacity [OF assms] obtain C where C: "c = int C" "0 < C"
    by blast
  from run_two_state [OF C(2), of xs] show ?thesis
    using C by (auto simp: of_nat_mod min_def)
qed

section \<open>The buffer contract\<close>

text \<open>
  C1. FIFO overwrite. For every capacity \<open>c \<ge> 1\<close> and every \<open>k \<ge> 0\<close>, appending the
  \<open>c + k\<close> increasing values \<open>0, 1, ..., c + k - 1\<close> to a freshly constructed
  buffer of capacity \<open>c\<close> succeeds, and \<^verbatim>\<open>get_buffer\<close> then returns exactly
  \<open>[k, k + 1, ..., c + k - 1]\<close>, in both classes.
\<close>

theorem fifo_overwrite:
  assumes "1 \<le> c"
  shows "(\<exists>s. run_two c (map int [0..<nat c + k]) = Inr s
            \<and> get_buffer_two s = map int [k..<nat c + k])
       \<and> (\<exists>t. run_one c (map int [0..<nat c + k]) = Inr t
            \<and> get_buffer_one t = map int [k..<nat c + k])"
proof -
  let ?xs = "map int [0..<nat c + k]"
  have last_c: "drop (length ?xs - nat c) ?xs = map int [k..<nat c + k]"
    by (simp add: drop_map)
  from run_two_reach [OF assms, of ?xs] have two:
    "\<exists>s. run_two c ?xs = Inr s \<and> get_buffer_two s = map int [k..<nat c + k]"
    using last_c by auto
  have "0 \<le> c" using assms by simp
  from run_one_state [OF this, of ?xs] have one:
    "\<exists>t. run_one c ?xs = Inr t \<and> get_buffer_one t = map int [k..<nat c + k]"
    using last_c by auto
  from two one show ?thesis by blast
qed

theorem fifo_overwrite_witness:
  "(1::int) \<le> 3
   \<and> run_two 3 [0, 1, 2, 3, 4 :: int] =
       Inr \<lparr>buffer_two = [3, 4, 2], size_two = 3, position_two = 2, count_two = 3\<rparr>
   \<and> get_buffer_two \<lparr>buffer_two = [3, 4, 2 :: int], size_two = 3, position_two = 2,
        count_two = 3\<rparr> = [2, 3, 4]
   \<and> run_one 3 [0, 1, 2, 3, 4 :: int] = Inr \<lparr>buffer_one = \<lparr>items = [2, 3, 4], maxlen = 3\<rparr>\<rparr>"
proof -
  have xs: "map int [0..<nat 3 + 2] = [0, 1, 2, 3, 4]"
    and ys: "map int [2..<nat 3 + 2] = [2, 3, 4]"
    by code_simp+
  have two: "run_two 3 [0, 1, 2, 3, 4 :: int] =
       Inr \<lparr>buffer_two = [3, 4, 2], size_two = 3, position_two = 2, count_two = 3\<rparr>"
    by code_simp
  have one: "run_one 3 [0, 1, 2, 3, 4 :: int] =
       Inr \<lparr>buffer_one = \<lparr>items = [2, 3, 4], maxlen = 3\<rparr>\<rparr>"
    by code_simp
  show ?thesis
    using fifo_overwrite [of 3 2] two one unfolding xs ys by simp
qed

text \<open>
  C2. In every state reached by construction and appends, \<^verbatim>\<open>get_buffer\<close> of
  \<^verbatim>\<open>CyclicBufferTwo\<close> returns the first \<^verbatim>\<open>count\<close> slots when \<^verbatim>\<open>count < size\<close>,
  and otherwise the slots from \<^verbatim>\<open>position\<close> to the end followed by the slots before
  \<^verbatim>\<open>position\<close>. The list has as many slots as \<^verbatim>\<open>size\<close> says (none for a size
  below one), and the result has exactly \<^verbatim>\<open>count\<close> items, so it is empty when
  \<^verbatim>\<open>count\<close> is \<open>0\<close>. The method has no statement that can raise: the Python slices
  clamp their bounds, and here they coincide with the plain prefix and suffix.
\<close>

theorem get_buffer_linearizes:
  assumes "run_two c xs = Inr s"
  shows "get_buffer_two s =
           (if count_two s < size_two s then take (nat (count_two s)) (buffer_two s)
            else drop (nat (position_two s)) (buffer_two s)
                 @ take (nat (position_two s)) (buffer_two s))
       \<and> length (buffer_two s) = nat (size_two s)
       \<and> int (length (get_buffer_two s)) = count_two s"
proof (cases "1 \<le> c")
  case True
  from positive_capacity [OF True] obtain C where C: "c = int C" "0 < C"
    by blast
  let ?n = "length xs"
  from run_two_state [OF C(2), of xs] assms C(1)
  have sz: "size_two s = int C" and len: "length (buffer_two s) = C"
    and pos: "position_two s = int (?n mod C)"
    and cnt: "count_two s = int (min ?n C)"
    and gb: "get_buffer_two s = drop (?n - C) xs"
    by auto
  have "get_buffer_two s =
      (if min ?n C < C then take (min ?n C) (buffer_two s)
       else drop (?n mod C) (buffer_two s) @ take (?n mod C) (buffer_two s))"
    using sz cnt pos len by (rule get_buffer_two_nat)
  moreover have "length (get_buffer_two s) = min ?n C"
    using gb by (simp add: min_def)
  ultimately show ?thesis
    using sz len pos cnt by simp
next
  case False
  then have "c \<le> 0" by simp
  from run_two_nonpos(2) [OF this assms] \<open>c \<le> 0\<close> show ?thesis
    by (simp add: get_buffer_two_def py_slice_to_def py_slice_from_def)
qed

theorem get_buffer_linearizes_witness:
  "run_two 3 [1, 2, 3, 4, 5 :: int] =
       Inr \<lparr>buffer_two = [4, 5, 3], size_two = 3, position_two = 2, count_two = 3\<rparr>
   \<and> get_buffer_two \<lparr>buffer_two = [4, 5, 3 :: int], size_two = 3, position_two = 2,
        count_two = 3\<rparr> = drop 2 [4, 5, 3] @ take 2 [4, 5, 3]
   \<and> run_two 5 [7, 8 :: int] =
       Inr \<lparr>buffer_two = [7, 8, 0, 0, 0], size_two = 5, position_two = 2, count_two = 2\<rparr>
   \<and> get_buffer_two \<lparr>buffer_two = [7, 8, 0, 0, 0 :: int], size_two = 5, position_two = 2,
        count_two = 2\<rparr> = take 2 [7, 8, 0, 0, 0]"
proof -
  have full: "run_two 3 [1, 2, 3, 4, 5 :: int] =
       Inr \<lparr>buffer_two = [4, 5, 3], size_two = 3, position_two = 2, count_two = 3\<rparr>"
    by code_simp
  have part: "run_two 5 [7, 8 :: int] =
       Inr \<lparr>buffer_two = [7, 8, 0, 0, 0], size_two = 5, position_two = 2, count_two = 2\<rparr>"
    by code_simp
  show ?thesis
    using get_buffer_linearizes [OF full] get_buffer_linearizes [OF part] full part
    by simp
qed

text \<open>
  C3. Capacity bound. For every capacity \<open>c \<ge> 1\<close> and every sequence of appends, the
  result of \<^verbatim>\<open>get_buffer\<close> has at most \<open>c\<close> items, in both classes, and
  \<open>0 \<le> count \<le> c\<close> holds in \<^verbatim>\<open>CyclicBufferTwo\<close>.
\<close>

theorem capacity_bound:
  assumes "1 \<le> c"
  shows "(\<exists>s. run_two c xs = Inr s \<and> int (length (get_buffer_two s)) \<le> c
            \<and> 0 \<le> count_two s \<and> count_two s \<le> c)
       \<and> (\<exists>t. run_one c xs = Inr t \<and> int (length (get_buffer_one t)) \<le> c)"
proof -
  have len: "int (length (drop (length xs - nat c) xs)) \<le> c"
    using assms by simp
  from run_two_reach [OF assms, of xs] have two:
    "\<exists>s. run_two c xs = Inr s \<and> int (length (get_buffer_two s)) \<le> c
            \<and> 0 \<le> count_two s \<and> count_two s \<le> c"
    using len assms by auto
  have "0 \<le> c" using assms by simp
  from run_one_state [OF this, of xs] have one:
    "\<exists>t. run_one c xs = Inr t \<and> int (length (get_buffer_one t)) \<le> c"
    using len by auto
  from two one show ?thesis by blast
qed

theorem capacity_bound_witness:
  "(1::int) \<le> 3
   \<and> run_two 3 [1, 2, 3, 4, 5 :: int] =
       Inr \<lparr>buffer_two = [4, 5, 3], size_two = 3, position_two = 2, count_two = 3\<rparr>
   \<and> int (length (get_buffer_two \<lparr>buffer_two = [4, 5, 3 :: int], size_two = 3,
        position_two = 2, count_two = 3\<rparr>)) \<le> 3
   \<and> run_one 3 [1, 2, 3, 4, 5 :: int] = Inr \<lparr>buffer_one = \<lparr>items = [3, 4, 5], maxlen = 3\<rparr>\<rparr>
   \<and> int (length (get_buffer_one \<lparr>buffer_one = \<lparr>items = [3, 4, 5 :: int], maxlen = 3\<rparr>\<rparr>)) \<le> 3"
proof -
  have two: "run_two 3 [1, 2, 3, 4, 5 :: int] =
       Inr \<lparr>buffer_two = [4, 5, 3], size_two = 3, position_two = 2, count_two = 3\<rparr>"
    by code_simp
  have one: "run_one 3 [1, 2, 3, 4, 5 :: int] =
       Inr \<lparr>buffer_one = \<lparr>items = [3, 4, 5], maxlen = 3\<rparr>\<rparr>"
    by code_simp
  show ?thesis
    using capacity_bound [of 3 "[1, 2, 3, 4, 5 :: int]"] two one by simp
qed

text \<open>
  C4. Peek correctness. For every capacity \<open>c \<ge> 1\<close> and every non-empty sequence of
  appends, \<^verbatim>\<open>get_buffer()\<close> is non-empty, \<^verbatim>\<open>peek_top()\<close> returns
  \<^verbatim>\<open>get_buffer()[-1]\<close>, its last item, and \<^verbatim>\<open>peek_bottom()\<close> returns
  \<^verbatim>\<open>get_buffer()[0]\<close>, its first item.
\<close>

theorem peek_correct:
  assumes "1 \<le> c" and "xs \<noteq> []"
  shows "\<exists>s. run_two c xs = Inr s \<and> get_buffer_two s \<noteq> []
           \<and> peek_top_two s = py_getitem (get_buffer_two s) (- 1)
           \<and> peek_top_two s = Inr (last (get_buffer_two s))
           \<and> peek_bottom_two s = py_getitem (get_buffer_two s) 0
           \<and> peek_bottom_two s = Inr (hd (get_buffer_two s))"
proof -
  from positive_capacity [OF assms(1)] obtain C where C: "c = int C" "0 < C"
    by blast
  from run_two_state [OF C(2), of xs] obtain s where run: "run_two (int C) xs = Inr s"
    and gb: "get_buffer_two s = drop (length xs - C) xs"
    by blast
  have "0 < length xs" using assms(2) by simp
  then have "length xs - C < length xs" using C(2) by arith
  then have ne: "get_buffer_two s \<noteq> []"
    using gb by simp
  show ?thesis
    using run ne run_two_peek [OF C(2) run] py_getitem_last [OF ne] py_getitem_hd [OF ne] C(1)
    by simp
qed

theorem peek_correct_witness:
  "(1::int) \<le> 3 \<and> [1, 2, 3, 4, 5 :: int] \<noteq> []
   \<and> run_two 3 [1, 2, 3, 4, 5 :: int] =
       Inr \<lparr>buffer_two = [4, 5, 3], size_two = 3, position_two = 2, count_two = 3\<rparr>
   \<and> peek_top_two \<lparr>buffer_two = [4, 5, 3 :: int], size_two = 3, position_two = 2,
        count_two = 3\<rparr> = Inr 5
   \<and> peek_bottom_two \<lparr>buffer_two = [4, 5, 3 :: int], size_two = 3, position_two = 2,
        count_two = 3\<rparr> = Inr 3"
proof -
  have run: "run_two 3 [1, 2, 3, 4, 5 :: int] =
       Inr \<lparr>buffer_two = [4, 5, 3], size_two = 3, position_two = 2, count_two = 3\<rparr>"
    by code_simp
  have gb: "get_buffer_two \<lparr>buffer_two = [4, 5, 3 :: int], size_two = 3, position_two = 2,
        count_two = 3\<rparr> = [3, 4, 5]"
    by code_simp
  show ?thesis
    using peek_correct [of 3 "[1, 2, 3, 4, 5 :: int]"] run gb by (simp add: py_getitem_def)
qed

text \<open>
  C5. The two classes are behaviourally equivalent: for every capacity \<open>c \<ge> 1\<close> and
  every sequence of appends, construction and all appends succeed in both, and
  \<^verbatim>\<open>get_buffer\<close>, \<^verbatim>\<open>peek_top\<close> and \<^verbatim>\<open>peek_bottom\<close> give the same result in
  both, the same exception included.
\<close>

theorem implementations_agree:
  assumes "1 \<le> c"
  shows "\<exists>s t. run_one c xs = Inr s \<and> run_two c xs = Inr t
           \<and> get_buffer_one s = get_buffer_two t
           \<and> peek_top_one s = peek_top_two t
           \<and> peek_bottom_one s = peek_bottom_two t"
proof -
  from positive_capacity [OF assms] obtain C where C: "c = int C" "0 < C"
    by blast
  from run_two_state [OF C(2), of xs] obtain t where two: "run_two (int C) xs = Inr t"
    and gb2: "get_buffer_two t = drop (length xs - C) xs"
    by blast
  have "0 \<le> c" using assms by simp
  from run_one_state [OF this, of xs] obtain s where one: "run_one c xs = Inr s"
    and gb1: "get_buffer_one s = drop (length xs - nat c) xs"
    by blast
  have same: "get_buffer_one s = get_buffer_two t"
    using gb1 gb2 C(1) by simp
  have "peek_top_one s = peek_top_two t" and "peek_bottom_one s = peek_bottom_two t"
    using run_two_peek [OF C(2) two] same by (simp_all add: peek_one_getitem)
  then show ?thesis using one two same C(1) by blast
qed

theorem implementations_agree_witness:
  "(1::int) \<le> 3
   \<and> run_one 3 [1, 2, 3, 4, 5 :: int] = Inr \<lparr>buffer_one = \<lparr>items = [3, 4, 5], maxlen = 3\<rparr>\<rparr>
   \<and> run_two 3 [1, 2, 3, 4, 5 :: int] =
       Inr \<lparr>buffer_two = [4, 5, 3], size_two = 3, position_two = 2, count_two = 3\<rparr>
   \<and> get_buffer_one \<lparr>buffer_one = \<lparr>items = [3, 4, 5 :: int], maxlen = 3\<rparr>\<rparr>
       = get_buffer_two \<lparr>buffer_two = [4, 5, 3], size_two = 3, position_two = 2, count_two = 3\<rparr>
   \<and> peek_top_one \<lparr>buffer_one = \<lparr>items = [3, 4, 5 :: int], maxlen = 3\<rparr>\<rparr>
       = peek_top_two \<lparr>buffer_two = [4, 5, 3], size_two = 3, position_two = 2, count_two = 3\<rparr>
   \<and> peek_bottom_one \<lparr>buffer_one = \<lparr>items = [3, 4, 5 :: int], maxlen = 3\<rparr>\<rparr>
       = peek_bottom_two \<lparr>buffer_two = [4, 5, 3], size_two = 3, position_two = 2, count_two = 3\<rparr>"
proof -
  have one: "run_one 3 [1, 2, 3, 4, 5 :: int] =
       Inr \<lparr>buffer_one = \<lparr>items = [3, 4, 5], maxlen = 3\<rparr>\<rparr>"
    by code_simp
  have two: "run_two 3 [1, 2, 3, 4, 5 :: int] =
       Inr \<lparr>buffer_two = [4, 5, 3], size_two = 3, position_two = 2, count_two = 3\<rparr>"
    by code_simp
  show ?thesis
    using implementations_agree [of 3 "[1, 2, 3, 4, 5 :: int]"] one two by simp
qed

text \<open>
  C6. Construction with a capacity that is zero or negative does not always fail:
  \<^verbatim>\<open>CyclicBufferTwo(0)\<close>, \<^verbatim>\<open>CyclicBufferTwo(-2)\<close> and \<^verbatim>\<open>CyclicBufferOne(0)\<close>
  are constructed, as buffers without a slot.
\<close>

theorem construction_counterexample:
  "init_two 0 =
     Inr \<lparr>buffer_two = ([] :: int list), size_two = 0, position_two = 0, count_two = 0\<rparr>
   \<and> init_two (- 2) =
     Inr \<lparr>buffer_two = ([] :: int list), size_two = - 2, position_two = 0, count_two = 0\<rparr>
   \<and> init_one 0 = Inr \<lparr>buffer_one = \<lparr>items = ([] :: int list), maxlen = 0\<rparr>\<rparr>"
  by (simp add: init_two_def py_repeat_def init_one_def deque_new_def)

text \<open>
  C6. What construction does, for a capacity \<open>c\<close> with \<open>- 2^63 \<le> c < 2^60\<close>, the
  range in which the interpreter takes \<open>c\<close> as the length of a list (memory
  permitting): \<^verbatim>\<open>CyclicBufferTwo\<close> is constructed with \<^verbatim>\<open>count = 0\<close>,
  \<^verbatim>\<open>position = 0\<close>, \<^verbatim>\<open>size = c\<close> and \<open>max c 0\<close> slots holding \<open>0\<close>, and its
  contents are empty; \<^verbatim>\<open>CyclicBufferOne\<close> is constructed empty with
  \<^verbatim>\<open>maxlen = c\<close> when \<open>c \<ge> 0\<close>, and raises the \<^verbatim>\<open>ValueError\<close> of the deque when
  \<open>c < 0\<close>. So in this range construction with \<open>c \<ge> 1\<close> succeeds in both classes
  and yields an empty buffer with \<^verbatim>\<open>count = 0\<close> and \<^verbatim>\<open>position = 0\<close>, construction
  with \<open>0\<close> succeeds as well, and a negative capacity is refused by
  \<^verbatim>\<open>CyclicBufferOne\<close> only.
\<close>

theorem construction:
  assumes "- (2 ^ 63) \<le> c" and "c < 2 ^ 60"
  shows "(\<exists>s :: ('a::zero) CyclicBufferTwo. init_two c = Inr s
            \<and> count_two s = 0 \<and> position_two s = 0 \<and> size_two s = c
            \<and> buffer_two s = replicate (nat c) 0 \<and> get_buffer_two s = [])
       \<and> (if c < 0 then init_one c = (Inl ValueError :: py_error + 'b CyclicBufferOne)
           else \<exists>t :: 'b CyclicBufferOne. init_one c = Inr t \<and> maxlen (buffer_one t) = c
                  \<and> get_buffer_one t = [])"
  by (simp add: init_two_def py_repeat_def init_one_def deque_new_def get_buffer_two_def
      get_buffer_one_def py_slice_to_def py_slice_from_def py_slice_bound_def)

theorem construction_witness:
  "- (2 ^ 63) \<le> (3::int) \<and> (3::int) < 2 ^ 60
   \<and> init_two 3 =
       Inr \<lparr>buffer_two = [0, 0, 0 :: int], size_two = 3, position_two = 0, count_two = 0\<rparr>
   \<and> get_buffer_two \<lparr>buffer_two = [0, 0, 0 :: int], size_two = 3, position_two = 0,
        count_two = 0\<rparr> = []
   \<and> init_one 3 = Inr \<lparr>buffer_one = \<lparr>items = ([] :: int list), maxlen = 3\<rparr>\<rparr>
   \<and> - (2 ^ 63) \<le> (- 2 :: int) \<and> (- 2 :: int) < 2 ^ 60
   \<and> init_one (- 2) = (Inl ValueError :: py_error + int CyclicBufferOne)"
proof -
  have pos: "- (2 ^ 63) \<le> (3::int)" "(3::int) < 2 ^ 60"
    and neg: "- (2 ^ 63) \<le> (- 2 :: int)" "(- 2 :: int) < 2 ^ 60"
    by simp_all
  have two: "init_two 3 =
       Inr \<lparr>buffer_two = [0, 0, 0 :: int], size_two = 3, position_two = 0, count_two = 0\<rparr>"
    by code_simp
  have one: "init_one 3 = Inr \<lparr>buffer_one = \<lparr>items = ([] :: int list), maxlen = 3\<rparr>\<rparr>"
    by code_simp
  have gb: "get_buffer_two \<lparr>buffer_two = [0, 0, 0 :: int], size_two = 3, position_two = 0,
        count_two = 0\<rparr> = []"
  proof -
    from construction [OF pos, where ?'a = int and ?'b = int]
    obtain s :: "int CyclicBufferTwo" where "init_two 3 = Inr s" and "get_buffer_two s = []"
      by blast
    with two show ?thesis by simp
  qed
  have err: "init_one (- 2) = (Inl ValueError :: py_error + int CyclicBufferOne)"
    using construction [OF neg, where ?'a = int and ?'b = int] by simp
  show ?thesis
    using pos neg two gb one err by (intro conjI)
qed

text \<open>
  C7. In every state of \<^verbatim>\<open>CyclicBufferTwo\<close> reached by construction and appends,
  \<^verbatim>\<open>peek_top\<close> and \<^verbatim>\<open>peek_bottom\<close> raise exactly when \<^verbatim>\<open>count\<close> is \<open>0\<close>, and
  the exception is then the \<^verbatim>\<open>IndexError\<close> of the empty buffer; \<^verbatim>\<open>count\<close> is
  \<open>0\<close> exactly when nothing has been appended, so both raise on a fresh buffer and
  return a value after any append.
\<close>

theorem peek_fails_iff_empty:
  assumes "run_two c xs = Inr s"
  shows "(peek_top_two s = Inl IndexError) = (count_two s = 0)
       \<and> (peek_bottom_two s = Inl IndexError) = (count_two s = 0)
       \<and> isl (peek_top_two s) = (count_two s = 0)
       \<and> isl (peek_bottom_two s) = (count_two s = 0)
       \<and> (count_two s = 0) = (xs = [])"
proof (cases "1 \<le> c")
  case True
  from positive_capacity [OF True] obtain C where C: "c = int C" "0 < C"
    by blast
  from run_two_state [OF C(2), of xs] assms C(1)
  have cnt: "count_two s = int (min (length xs) C)"
    and gb: "get_buffer_two s = drop (length xs - C) xs"
    by auto
  have run: "run_two (int C) xs = Inr s" using assms C(1) by simp
  note peek = run_two_peek [OF C(2) run]
  show ?thesis
  proof (cases "xs = []")
    case True
    then show ?thesis
      using cnt gb peek by (simp add: py_getitem_Nil)
  next
    case False
    then have "0 < length xs" by simp
    then have "length xs - C < length xs" using C(2) by arith
    then have ne: "get_buffer_two s \<noteq> []" using gb by simp
    have "count_two s \<noteq> 0" using cnt C(2) \<open>0 < length xs\<close> by simp
    then show ?thesis
      using False peek py_getitem_last [OF ne] py_getitem_hd [OF ne] by simp
  qed
next
  case False
  then have "c \<le> 0" by simp
  from run_two_nonpos [OF this assms] show ?thesis
    by (simp add: peek_top_two_def peek_bottom_two_def)
qed

theorem peek_fails_iff_empty_witness:
  "run_two 3 ([] :: int list) =
       Inr \<lparr>buffer_two = [0, 0, 0], size_two = 3, position_two = 0, count_two = 0\<rparr>
   \<and> peek_top_two \<lparr>buffer_two = [0, 0, 0 :: int], size_two = 3, position_two = 0,
        count_two = 0\<rparr> = Inl IndexError
   \<and> peek_bottom_two \<lparr>buffer_two = [0, 0, 0 :: int], size_two = 3, position_two = 0,
        count_two = 0\<rparr> = Inl IndexError
   \<and> run_two 3 [1, 2, 3, 4, 5 :: int] =
       Inr \<lparr>buffer_two = [4, 5, 3], size_two = 3, position_two = 2, count_two = 3\<rparr>
   \<and> \<not> isl (peek_top_two \<lparr>buffer_two = [4, 5, 3 :: int], size_two = 3, position_two = 2,
        count_two = 3\<rparr>)
   \<and> \<not> isl (peek_bottom_two \<lparr>buffer_two = [4, 5, 3 :: int], size_two = 3, position_two = 2,
        count_two = 3\<rparr>)"
proof -
  have fresh: "run_two 3 ([] :: int list) =
       Inr \<lparr>buffer_two = [0, 0, 0], size_two = 3, position_two = 0, count_two = 0\<rparr>"
    by code_simp
  have full: "run_two 3 [1, 2, 3, 4, 5 :: int] =
       Inr \<lparr>buffer_two = [4, 5, 3], size_two = 3, position_two = 2, count_two = 3\<rparr>"
    by code_simp
  show ?thesis
    using peek_fails_iff_empty [OF fresh] peek_fails_iff_empty [OF full] fresh full
    by simp
qed

text \<open>
  C8. In every state of a \<^verbatim>\<open>CyclicBufferTwo\<close> of capacity \<open>c \<ge> 1\<close> reached by
  construction and appends, \<^verbatim>\<open>append(item)\<close> succeeds, writes \<open>item\<close> into the slot
  at \<^verbatim>\<open>position\<close> (an index within the list), sets \<^verbatim>\<open>position\<close> to
  \<open>(position + 1) mod c\<close>, increments \<^verbatim>\<open>count\<close> when it is below \<open>c\<close> and leaves
  it equal to \<open>c\<close> otherwise; \<^verbatim>\<open>size\<close> and the other slots do not change.
\<close>

theorem append_effect:
  assumes "1 \<le> c" and "run_two c xs = Inr s"
  shows "append_two s x =
           Inr \<lparr>buffer_two = (buffer_two s)[nat (position_two s) := x],
                size_two = size_two s,
                position_two = (position_two s + 1) mod c,
                count_two = (if count_two s < c then count_two s + 1 else c)\<rparr>
       \<and> size_two s = c
       \<and> 0 \<le> position_two s \<and> nat (position_two s) < length (buffer_two s)"
proof -
  from positive_capacity [OF assms(1)] obtain C where C: "c = int C" "0 < C"
    by blast
  let ?p = "length xs mod C"
  from run_two_state [OF C(2), of xs] assms(2) C(1)
  have sz: "size_two s = int C" and len: "length (buffer_two s) = C"
    and pos: "position_two s = int ?p"
    and cnt: "count_two s = int (min (length xs) C)"
    by auto
  have pC: "?p < C" using C(2) by simp
  have "append_two s x =
     Inr (s\<lparr>buffer_two := (buffer_two s)[?p := x],
            position_two := int (Suc ?p mod C),
            count_two := (if count_two s < int C then count_two s + 1 else count_two s)\<rparr>)"
    using sz C(2) len pos pC by (rule append_two_nat)
  moreover have "int (Suc ?p mod C) = (position_two s + 1) mod c"
    using pos C(1) by (simp add: of_nat_mod add.commute)
  moreover have "(if count_two s < int C then count_two s + 1 else count_two s)
      = (if count_two s < c then count_two s + 1 else c)"
    using cnt C(1) by (simp add: min_def)
  ultimately show ?thesis
    using sz len pos pC C(1) by (cases s) simp
qed

theorem append_effect_witness:
  "(1::int) \<le> 3
   \<and> run_two 3 [1, 2, 3, 4, 5 :: int] =
       Inr \<lparr>buffer_two = [4, 5, 3], size_two = 3, position_two = 2, count_two = 3\<rparr>
   \<and> append_two \<lparr>buffer_two = [4, 5, 3 :: int], size_two = 3, position_two = 2,
        count_two = 3\<rparr> 6
       = Inr \<lparr>buffer_two = [4, 5, 6], size_two = 3, position_two = 0, count_two = 3\<rparr>"
proof -
  have run: "run_two 3 [1, 2, 3, 4, 5 :: int] =
       Inr \<lparr>buffer_two = [4, 5, 3], size_two = 3, position_two = 2, count_two = 3\<rparr>"
    by code_simp
  have h: "(1::int) \<le> 3" by simp
  show ?thesis
    using append_effect [OF h run, of 6] run by simp
qed

text \<open>
  C9. For a \<^verbatim>\<open>CyclicBufferTwo\<close> constructed with a capacity \<open>c \<ge> 1\<close>, every sequence
  of appends succeeds, and in the state reached one more \<^verbatim>\<open>append\<close> of any item
  succeeds: its slot assignment is in range and its remainder has a non-zero divisor.
  The bounds \<^verbatim>\<open>get_buffer\<close> slices with, \<^verbatim>\<open>count\<close> and \<^verbatim>\<open>position\<close>, lie within
  the list, and it returns \<^verbatim>\<open>count\<close> items.
\<close>

theorem append_get_buffer_total:
  assumes "1 \<le> c"
  shows "\<exists>s. run_two c xs = Inr s
           \<and> (\<exists>b. py_setitem (buffer_two s) (position_two s) x = Inr b)
           \<and> (\<exists>p. py_mod (position_two s + 1) (size_two s) = Inr p)
           \<and> (\<exists>t. append_two s x = Inr t)
           \<and> 0 \<le> count_two s \<and> count_two s \<le> int (length (buffer_two s))
           \<and> 0 \<le> position_two s \<and> position_two s < int (length (buffer_two s))
           \<and> length (get_buffer_two s) = nat (count_two s)"
proof -
  from run_two_reach [OF assms, of xs] obtain s where run: "run_two c xs = Inr s"
    and sz: "size_two s = c" and len: "int (length (buffer_two s)) = c"
    and pos: "position_two s = int (length xs) mod c"
    and cnt: "count_two s = min (int (length xs)) c"
    and gb: "get_buffer_two s = drop (length xs - nat c) xs"
    by blast
  have p: "0 \<le> position_two s" "position_two s < c"
    using pos assms by simp_all
  have set_ok: "\<exists>b. py_setitem (buffer_two s) (position_two s) x = Inr b"
    using p len by (simp add: py_setitem_def)
  have mod_ok: "\<exists>p. py_mod (position_two s + 1) (size_two s) = Inr p"
    using sz assms by (simp add: py_mod_def)
  have app_ok: "\<exists>t. append_two s x = Inr t"
    using set_ok mod_ok by (auto simp: append_two_def)
  have k: "0 \<le> count_two s" "count_two s \<le> c"
    using cnt assms by simp_all
  have "length (get_buffer_two s) = nat (count_two s)"
    using gb cnt assms by (simp add: min_def)
  then show ?thesis
    using run set_ok mod_ok app_ok k p len by auto
qed

theorem append_get_buffer_total_witness:
  "(1::int) \<le> 5
   \<and> run_two 5 [7, 8 :: int] =
       Inr \<lparr>buffer_two = [7, 8, 0, 0, 0], size_two = 5, position_two = 2, count_two = 2\<rparr>
   \<and> py_setitem [7, 8, 0, 0, 0 :: int] 2 9 = Inr [7, 8, 9, 0, 0]
   \<and> py_mod (2 + 1) 5 = Inr 3
   \<and> append_two \<lparr>buffer_two = [7, 8, 0, 0, 0 :: int], size_two = 5, position_two = 2,
        count_two = 2\<rparr> 9
       = Inr \<lparr>buffer_two = [7, 8, 9, 0, 0], size_two = 5, position_two = 3, count_two = 3\<rparr>"
proof -
  have run: "run_two 5 [7, 8 :: int] =
       Inr \<lparr>buffer_two = [7, 8, 0, 0, 0], size_two = 5, position_two = 2, count_two = 2\<rparr>"
    by code_simp
  have app: "append_two \<lparr>buffer_two = [7, 8, 0, 0, 0 :: int], size_two = 5, position_two = 2,
        count_two = 2\<rparr> 9
       = Inr \<lparr>buffer_two = [7, 8, 9, 0, 0], size_two = 5, position_two = 3, count_two = 3\<rparr>"
    by code_simp
  have prim: "py_setitem [7, 8, 0, 0, 0 :: int] 2 9 = Inr [7, 8, 9, 0, 0]"
    "py_mod (2 + 1) 5 = Inr 3"
    by code_simp+
  show ?thesis
    using append_get_buffer_total [of 5 "[7, 8 :: int]" 9] run app prim by simp
qed

text \<open>
  C10. For \<^verbatim>\<open>CyclicBufferTwo\<close> constructed with \<^verbatim>\<open>buffer_size\<close> \<open>c \<ge> 1\<close>, any
  sequence of \<open>n\<close> appends succeeds and leaves \<^verbatim>\<open>count\<close> equal to \<open>min n c\<close> and
  \<^verbatim>\<open>position\<close> equal to \<open>n mod c\<close>; so \<open>0 \<le> position < c\<close> and
  \<open>0 \<le> count \<le> c\<close> after every operation.
\<close>

theorem count_position_after_appends:
  assumes "1 \<le> c"
  shows "\<exists>s. run_two c xs = Inr s
           \<and> count_two s = min (int (length xs)) c
           \<and> position_two s = int (length xs) mod c
           \<and> 0 \<le> position_two s \<and> position_two s < c
           \<and> 0 \<le> count_two s \<and> count_two s \<le> c"
proof -
  from positive_capacity [OF assms] obtain C where C: "c = int C" "0 < C"
    by blast
  from run_two_state [OF C(2), of xs]
  obtain s where "run_two c xs = Inr s" and "position_two s = int (length xs mod C)"
    and "count_two s = int (min (length xs) C)"
    using C(1) by auto
  then show ?thesis
    using C by (auto simp: of_nat_mod min_def)
qed

theorem count_position_after_appends_witness:
  "(1::int) \<le> 3
   \<and> run_two 3 [1, 2, 3, 4, 5 :: int] =
       Inr \<lparr>buffer_two = [4, 5, 3], size_two = 3, position_two = 2, count_two = 3\<rparr>
   \<and> (3::int) = min (int (length [1, 2, 3, 4, 5 :: int])) 3
   \<and> (2::int) = int (length [1, 2, 3, 4, 5 :: int]) mod 3"
proof -
  have h: "run_two 3 [1, 2, 3, 4, 5 :: int] =
       Inr \<lparr>buffer_two = [4, 5, 3], size_two = 3, position_two = 2, count_two = 3\<rparr>"
    by code_simp
  show ?thesis
    using h count_position_after_appends [of 3 "[1, 2, 3, 4, 5 :: int]"] by simp
qed

end
